theory Spec2Isabelle
  imports Main
begin

section \<open>Dynamic arrays\<close>

text \<open>
  Both classes keep their elements in a dynamic array allocated with \<^verbatim>\<open>new T[capacity]\<close>.
  The array is a list of cells, one per allocated slot, so its length is the size of
  the allocation. A cell that was never written holds an indeterminate value: \<open>None\<close>.

  An access outside the allocation, read or write, is undefined behaviour in C++: the
  model stops the operation there with \<open>OutOfBounds index size\<close>. A failed \<^verbatim>\<open>assert\<close>
  stops it with \<open>AssertionFailed\<close>.
\<close>

type_synonym 'a cell = "'a option"

datatype error = OutOfBounds nat nat | AssertionFailed

definition new_array :: "nat \<Rightarrow> 'a cell list" where
  "new_array n = replicate n None"

definition rd :: "'a cell list \<Rightarrow> nat \<Rightarrow> error + 'a cell" where
  "rd xs i = (if i < length xs then Inr (xs ! i) else Inl (OutOfBounds i (length xs)))"

definition wr :: "'a cell list \<Rightarrow> nat \<Rightarrow> 'a cell \<Rightarrow> error + 'a cell list" where
  "wr xs i c = (if i < length xs then Inr (xs[i := c]) else Inl (OutOfBounds i (length xs)))"

text \<open>
  \<^verbatim>\<open>a == b\<close> on two array elements. Comparing an indeterminate cell has no defined
  outcome in C++; the model takes it as unequal.
\<close>

definition same_value :: "'a cell \<Rightarrow> 'a cell \<Rightarrow> bool" where
  "same_value a b = (a \<noteq> None \<and> a = b)"

text \<open>
  \<^verbatim>\<open>for (i = 0; i < n; i++) dst[i] = src[i];\<close> as it stands in both \<^verbatim>\<open>resize\<close>
  functions, the copy constructors, the assignment operators and \<^verbatim>\<open>subtract\<close>. An
  assignment between two elements reads the right-hand side and then writes the left.
\<close>

function copy_loop :: "'a cell list \<Rightarrow> 'a cell list \<Rightarrow> nat \<Rightarrow> nat \<Rightarrow> error + 'a cell list" where
  "copy_loop src dst i n =
     (if i < n then
        (case rd src i of
           Inl e \<Rightarrow> Inl e
         | Inr c \<Rightarrow>
             (case wr dst i c of
                Inl e \<Rightarrow> Inl e
              | Inr dst' \<Rightarrow> copy_loop src dst' (i + 1) n))
      else Inr dst)"
  by pat_completeness auto
termination
  by (relation "measure (\<lambda>(src, dst, i, n). n - i)") auto

declare copy_loop.simps [simp del]

section \<open>IntSet (Assignment 2/IntSet.cpp)\<close>

text \<open>
  The class has the members \<^verbatim>\<open>int* data; int capacity; int used;\<close>. The two counters
  are never negative in a state the code builds, so they are natural numbers here. The
  elements are C++ \<^verbatim>\<open>int\<close>s on which the code only ever tests equality.

  \<^verbatim>\<open>IntSet.h\<close> is not among the sources, so the constant \<^verbatim>\<open>DEFAULT_CAPACITY\<close> it declares is
  a parameter of every operation that uses it.

  Three locals are declared without an initialiser: \<^verbatim>\<open>found\<close> in \<^verbatim>\<open>contains\<close>,
  \<^verbatim>\<open>isSubset\<close> in \<^verbatim>\<open>isSubsetOf\<close> and \<^verbatim>\<open>same\<close> in \<^verbatim>\<open>operator==\<close>. \<^verbatim>\<open>contains\<close> tests
  \<^verbatim>\<open>found\<close> before assigning it, so the model takes what that first test reads as the
  argument \<open>found0\<close>; operations that call \<^verbatim>\<open>contains\<close> in a loop take one such value per
  call. \<^verbatim>\<open>isSubsetOf\<close> and \<^verbatim>\<open>operator==\<close> only return their local, so they return a
  cell: \<open>None\<close> is an indeterminate result. Every operation that reads the array can stop
  with an error, so the queries return a sum type as well.

  \<^verbatim>\<open>intersect\<close>, \<^verbatim>\<open>subtract\<close> and \<^verbatim>\<open>unionWith\<close> return a local set by value. The model
  returns the local itself; a copy made on return has the same \<^verbatim>\<open>used\<close>, \<^verbatim>\<open>capacity\<close> and
  elements in use.
\<close>

record IntSet =
  data :: "int cell list"
  used :: nat
  capacity :: nat

definition resize :: "nat \<Rightarrow> IntSet \<Rightarrow> nat \<Rightarrow> error + IntSet" where
  "resize DEFAULT_CAPACITY S new_capacity =
     (let n1 = (if new_capacity < used S then used S else new_capacity);
          n2 = (if n1 < DEFAULT_CAPACITY then DEFAULT_CAPACITY else n1)
      in case copy_loop (data S) (new_array n2) 0 (used S) of
           Inl e \<Rightarrow> Inl e
         | Inr newData \<Rightarrow> Inr (S\<lparr>data := newData, capacity := n2\<rparr>))"

definition IntSet_ctor :: "nat \<Rightarrow> int \<Rightarrow> IntSet" where
  "IntSet_ctor DEFAULT_CAPACITY initial_capacity =
     (let c = (if initial_capacity < 1 then DEFAULT_CAPACITY else nat initial_capacity)
      in \<lparr>data = new_array c, used = 0, capacity = c\<rparr>)"

text \<open>
  Modelled from the spec: the default argument of the constructor, declared in
  \<^verbatim>\<open>IntSet.h\<close>. A set declared as \<^verbatim>\<open>IntSet s;\<close> is "created with an initial capacity
  (clamped to a default if the requested value is invalid)": the default capacity.
  \<^verbatim>\<open>intersect\<close>, \<^verbatim>\<open>subtract\<close> and \<^verbatim>\<open>unionWith\<close> never call \<^verbatim>\<open>resize\<close>; there the parameter
  \<open>DEFAULT_CAPACITY\<close> only stands for the capacity of such a set.
\<close>

definition IntSet_default :: "nat \<Rightarrow> IntSet" where
  "IntSet_default DEFAULT_CAPACITY = IntSet_ctor DEFAULT_CAPACITY (int DEFAULT_CAPACITY)"

text \<open>
  \<^verbatim>\<open>operator=\<close> for two distinct objects (every assignment in this file stores a
  temporary into a fresh local). The left operand's old array is released.
\<close>

definition assign :: "IntSet \<Rightarrow> IntSet \<Rightarrow> error + IntSet" where
  "assign lhs rhs =
     (case copy_loop (data rhs) (new_array (capacity rhs)) 0 (used rhs) of
        Inl e \<Rightarrow> Inl e
      | Inr newData \<Rightarrow> Inr (lhs\<lparr>data := newData, capacity := capacity rhs, used := used rhs\<rparr>))"

definition size_IntSet :: "IntSet \<Rightarrow> nat" where
  "size_IntSet S = used S"

definition isEmpty :: "IntSet \<Rightarrow> bool" where
  "isEmpty S = (if size_IntSet S = 0 then True else False)"

function contains_loop :: "IntSet \<Rightarrow> int \<Rightarrow> bool \<Rightarrow> nat \<Rightarrow> error + bool" where
  "contains_loop S anInt found index =
     (if found \<noteq> True \<and> index < used S then
        (case rd (data S) index of
           Inl e \<Rightarrow> Inl e
         | Inr c \<Rightarrow>
             contains_loop S anInt (if c = Some anInt then True else False) (index + 1))
      else Inr found)"
  by pat_completeness auto
termination
  by (relation "measure (\<lambda>(S, anInt, found, index). used S - index)") auto

declare contains_loop.simps [simp del]

definition contains :: "bool \<Rightarrow> IntSet \<Rightarrow> int \<Rightarrow> error + bool" where
  "contains found0 S anInt =
     (if isEmpty S then Inr False else contains_loop S anInt found0 0)"

text \<open>
  \<^verbatim>\<open>DumpData\<close> writes \<^verbatim>\<open>data[0]\<close> to \<^verbatim>\<open>data[used - 1]\<close> to the stream; the model returns
  the cells it prints, in order.
\<close>

function DumpData_loop :: "IntSet \<Rightarrow> nat \<Rightarrow> int cell list \<Rightarrow> error + int cell list" where
  "DumpData_loop S i out =
     (if i < used S then
        (case rd (data S) i of
           Inl e \<Rightarrow> Inl e
         | Inr c \<Rightarrow> DumpData_loop S (i + 1) (out @ [c]))
      else Inr out)"
  by pat_completeness auto
termination
  by (relation "measure (\<lambda>(S, i, out). used S - i)") auto

declare DumpData_loop.simps [simp del]

definition DumpData :: "IntSet \<Rightarrow> error + int cell list" where
  "DumpData S =
     (if used S > 0 then
        (case rd (data S) 0 of
           Inl e \<Rightarrow> Inl e
         | Inr c \<Rightarrow> DumpData_loop S 1 [c])
      else Inr [])"

definition reset :: "IntSet \<Rightarrow> IntSet" where
  "reset S = S\<lparr>used := 0\<rparr>"

text \<open>
  \<^verbatim>\<open>add\<close> returns its flag and leaves the set changed; the model returns both. The
  argument of \<^verbatim>\<open>resize\<close> is \<^verbatim>\<open>int(1.5*capacity) + 1\<close>: the product is exact in a double
  and the conversion truncates, which is \<open>3 * capacity div 2 + 1\<close>.
\<close>

definition add :: "bool \<Rightarrow> nat \<Rightarrow> IntSet \<Rightarrow> int \<Rightarrow> error + (bool \<times> IntSet)" where
  "add found0 DEFAULT_CAPACITY S anInt =
     (if isEmpty S then
        (case wr (data S) (used S) (Some anInt) of
           Inl e \<Rightarrow> Inl e
         | Inr d \<Rightarrow> Inr (True, S\<lparr>data := d, used := used S + 1\<rparr>))
      else
        (case contains found0 S anInt of
           Inl e \<Rightarrow> Inl e
         | Inr c \<Rightarrow>
             (let addSuccessful = (if c \<noteq> True then False else True) in
              case (if used S \<ge> capacity S
                    then resize DEFAULT_CAPACITY S (3 * capacity S div 2 + 1)
                    else Inr S) of
                Inl e \<Rightarrow> Inl e
              | Inr S' \<Rightarrow>
                  (case wr (data S') (used S') (Some anInt) of
                     Inl e \<Rightarrow> Inl e
                   | Inr d \<Rightarrow> Inr (True, S'\<lparr>data := d, used := used S' + 1\<rparr>)))))"

text \<open>
  \<^verbatim>\<open>remove\<close>: the inner loop \<^verbatim>\<open>for (j = i; j < used - 1; j++) data[j] = data[j + 1];\<close>
  is \<open>shift_loop\<close>. The \<^verbatim>\<open>std::copy\<close> that follows copies the range \<^verbatim>\<open>[i, used)\<close> onto
  itself and changes nothing; every index in that range has been read before it by the
  comparison or by the inner loop.
\<close>

function shift_loop :: "int cell list \<Rightarrow> nat \<Rightarrow> nat \<Rightarrow> error + int cell list" where
  "shift_loop d j n =
     (if j < n then
        (case rd d (j + 1) of
           Inl e \<Rightarrow> Inl e
         | Inr c \<Rightarrow>
             (case wr d j c of
                Inl e \<Rightarrow> Inl e
              | Inr d' \<Rightarrow> shift_loop d' (j + 1) n))
      else Inr d)"
  by pat_completeness auto
termination
  by (relation "measure (\<lambda>(d, j, n). n - j)") auto

declare shift_loop.simps [simp del]

function remove_loop :: "IntSet \<Rightarrow> int \<Rightarrow> nat \<Rightarrow> error + (bool \<times> IntSet)" where
  "remove_loop S anInt i =
     (if i < used S then
        (case rd (data S) i of
           Inl e \<Rightarrow> Inl e
         | Inr c \<Rightarrow>
             (if c = Some anInt then
                (case shift_loop (data S) i (used S - 1) of
                   Inl e \<Rightarrow> Inl e
                 | Inr d \<Rightarrow> Inr (True, S\<lparr>data := d, used := used S - 1\<rparr>))
              else remove_loop S anInt (i + 1)))
      else Inr (False, S))"
  by pat_completeness auto
termination
  by (relation "measure (\<lambda>(S, anInt, i). used S - i)") auto

declare remove_loop.simps [simp del]

definition remove :: "bool \<Rightarrow> IntSet \<Rightarrow> int \<Rightarrow> error + (bool \<times> IntSet)" where
  "remove found0 S anInt =
     (case contains found0 S anInt of
        Inl e \<Rightarrow> Inl e
      | Inr c \<Rightarrow>
          (if \<not> c \<or> isEmpty S then Inr (False, S)
           else remove_loop S anInt 0))"

text \<open>
  \<^verbatim>\<open>isSubsetOf\<close>: \<open>g i\<close> is what the local \<^verbatim>\<open>found\<close> of \<^verbatim>\<open>contains\<close> holds on entry to the
  call made at index \<open>i\<close>. An indeterminate element is taken as not found.
\<close>

function isSubsetOf_loop ::
  "(nat \<Rightarrow> bool) \<Rightarrow> IntSet \<Rightarrow> IntSet \<Rightarrow> nat \<Rightarrow> bool cell \<Rightarrow> error + bool cell" where
  "isSubsetOf_loop g S otherIntSet i isSubset =
     (if i < used S then
        (case rd (data S) i of
           Inl e \<Rightarrow> Inl e
         | Inr c \<Rightarrow>
             (case (case c of
                      Some x \<Rightarrow> contains (g i) otherIntSet x
                    | None \<Rightarrow> Inr False) of
                Inl e \<Rightarrow> Inl e
              | Inr found \<Rightarrow>
                  (if found = True then isSubsetOf_loop g S otherIntSet (i + 1) (Some True)
                   else Inr (Some False))))
      else Inr isSubset)"
  by pat_completeness auto
termination
  by (relation "measure (\<lambda>(g, S, otherIntSet, i, isSubset). used S - i)") auto

declare isSubsetOf_loop.simps [simp del]

definition isSubsetOf :: "(nat \<Rightarrow> bool) \<Rightarrow> IntSet \<Rightarrow> IntSet \<Rightarrow> error + bool cell" where
  "isSubsetOf g S otherIntSet =
     (if isEmpty S then Inr (Some True)
      else if used S > used otherIntSet then Inr (Some False)
      else isSubsetOf_loop g S otherIntSet 0 None)"

text \<open>
  \<^verbatim>\<open>intersect\<close>: the two nested loops carry the result's array and \<^verbatim>\<open>foundAlike\<close>.
\<close>

function intersect_inner ::
  "IntSet \<Rightarrow> IntSet \<Rightarrow> nat \<Rightarrow> nat \<Rightarrow> int cell list \<times> nat \<Rightarrow> error + (int cell list \<times> nat)" where
  "intersect_inner S otherIntSet i j (d, foundAlike) =
     (if j < used otherIntSet then
        (case rd (data S) i of
           Inl e \<Rightarrow> Inl e
         | Inr a \<Rightarrow>
        (case rd (data otherIntSet) j of
           Inl e \<Rightarrow> Inl e
         | Inr b \<Rightarrow>
             (if same_value a b then
                (case wr d foundAlike b of
                   Inl e \<Rightarrow> Inl e
                 | Inr d' \<Rightarrow> intersect_inner S otherIntSet i (j + 1) (d', foundAlike + 1))
              else intersect_inner S otherIntSet i (j + 1) (d, foundAlike))))
      else Inr (d, foundAlike))"
  by pat_completeness auto
termination
  by (relation "measure (\<lambda>(S, otherIntSet, i, j, st). used otherIntSet - j)") auto

declare intersect_inner.simps [simp del]

function intersect_outer ::
  "IntSet \<Rightarrow> IntSet \<Rightarrow> nat \<Rightarrow> int cell list \<times> nat \<Rightarrow> error + (int cell list \<times> nat)" where
  "intersect_outer S otherIntSet i st =
     (if i < used S then
        (case intersect_inner S otherIntSet i 0 st of
           Inl e \<Rightarrow> Inl e
         | Inr st' \<Rightarrow> intersect_outer S otherIntSet (i + 1) st')
      else Inr st)"
  by pat_completeness auto
termination
  by (relation "measure (\<lambda>(S, otherIntSet, i, st). used S - i)") auto

declare intersect_outer.simps [simp del]

definition intersect :: "nat \<Rightarrow> IntSet \<Rightarrow> IntSet \<Rightarrow> error + IntSet" where
  "intersect DEFAULT_CAPACITY S otherIntSet =
     (let intersection = (IntSet_default DEFAULT_CAPACITY)\<lparr>used := used S\<rparr>
      in if isEmpty otherIntSet then Inr (intersection\<lparr>used := used otherIntSet\<rparr>)
         else
           (case intersect_outer S otherIntSet 0 (data intersection, 0) of
              Inl e \<Rightarrow> Inl e
            | Inr (d, foundAlike) \<Rightarrow> Inr (intersection\<lparr>data := d, used := foundAlike\<rparr>)))"

text \<open>
  \<^verbatim>\<open>subtract\<close>: \<open>g i j\<close> is what \<^verbatim>\<open>found\<close> holds on entry to the \<^verbatim>\<open>contains\<close> call of the
  \<^verbatim>\<open>remove\<close> made at indices \<open>i\<close>, \<open>j\<close>. The outer loop tests \<^verbatim>\<open>i < diff.used\<close> against the
  set as the removals have left it.
\<close>

function subtract_inner ::
  "(nat \<Rightarrow> nat \<Rightarrow> bool) \<Rightarrow> IntSet \<Rightarrow> IntSet \<Rightarrow> nat \<Rightarrow> nat \<Rightarrow> error + IntSet" where
  "subtract_inner g diff otherIntSet i j =
     (if j < used otherIntSet then
        (case rd (data diff) i of
           Inl e \<Rightarrow> Inl e
         | Inr a \<Rightarrow>
        (case rd (data otherIntSet) j of
           Inl e \<Rightarrow> Inl e
         | Inr b \<Rightarrow>
             (case a of
                Some x \<Rightarrow>
                  (if same_value (Some x) b then
                     (case remove (g i j) diff x of
                        Inl e \<Rightarrow> Inl e
                      | Inr (removeSuccess, diff') \<Rightarrow>
                          subtract_inner g diff' otherIntSet i (j + 1))
                   else subtract_inner g diff otherIntSet i (j + 1))
              | None \<Rightarrow> subtract_inner g diff otherIntSet i (j + 1))))
      else Inr diff)"
  by pat_completeness auto
termination
  by (relation "measure (\<lambda>(g, diff, otherIntSet, i, j). used otherIntSet - j)") auto

declare subtract_inner.simps [simp del]

function subtract_outer ::
  "(nat \<Rightarrow> nat \<Rightarrow> bool) \<Rightarrow> IntSet \<Rightarrow> IntSet \<Rightarrow> nat \<Rightarrow> error + IntSet" where
  "subtract_outer g diff otherIntSet i =
     (if i < used diff then
        (case subtract_inner g diff otherIntSet i 0 of
           Inl e \<Rightarrow> Inl e
         | Inr diff' \<Rightarrow> subtract_outer g diff' otherIntSet (i + 1))
      else Inr diff)"
  by pat_completeness auto
termination
proof (relation "measure (\<lambda>(g, diff, otherIntSet, i). used diff - i)", goal_cases)
  case 1
  show ?case by simp
next
  case (2 g diff otherIntSet i diff')
  have rl: "used (snd r) \<le> used S" if "remove_loop S v k = Inr r" for S v k r
    using that
  proof (induction S v k rule: remove_loop.induct)
    case (1 S anInt i)
    then show ?case
      by (subst (asm) (2) remove_loop.simps) (auto split: if_splits sum.splits)
  qed
  have rm: "used S' \<le> used S" if "remove f S v = Inr (b, S')" for f S v b S'
    using that rl [of S v 0 "(b, S')"] by (auto simp: remove_def split: if_splits sum.splits)
  have si: "used d' \<le> used d" if "subtract_inner g d T i j = Inr d'" for g d T i j d'
    using that
  proof (induction g d T i j rule: subtract_inner.induct)
    case (1 g diff otherIntSet i j)
    from "1.prems" "1.IH" show ?case
      by (subst (asm) subtract_inner.simps)
        (fastforce split: if_splits option.splits sum.splits dest: rm)
  qed
  from 2 si [of g diff otherIntSet i 0 diff'] show ?case by simp
qed

declare subtract_outer.simps [simp del]

definition subtract :: "(nat \<Rightarrow> nat \<Rightarrow> bool) \<Rightarrow> nat \<Rightarrow> IntSet \<Rightarrow> IntSet \<Rightarrow> error + IntSet" where
  "subtract g DEFAULT_CAPACITY S otherIntSet =
     (let diff = (IntSet_default DEFAULT_CAPACITY)\<lparr>used := used S\<rparr>
      in if isEmpty otherIntSet then
           (case copy_loop (data S) (data diff) 0 (used S) of
              Inl e \<Rightarrow> Inl e
            | Inr d \<Rightarrow> Inr (diff\<lparr>data := d\<rparr>))
         else
           (case copy_loop (data S) (data diff) 0 (used S) of
              Inl e \<Rightarrow> Inl e
            | Inr d \<Rightarrow> subtract_outer g (diff\<lparr>data := d\<rparr>) otherIntSet 0))"

text \<open>
  \<^verbatim>\<open>unionWith\<close>: each of the three loops
  \<^verbatim>\<open>for (i = 0; i < part.used; i++) { unionSet.data[counter] = part.data[i]; counter++; }\<close>
  is \<open>append_loop\<close>. \<open>gA\<close> and \<open>gB\<close> belong to the two calls of \<^verbatim>\<open>subtract\<close>.
\<close>

function append_loop ::
  "IntSet \<Rightarrow> nat \<Rightarrow> int cell list \<times> nat \<Rightarrow> error + (int cell list \<times> nat)" where
  "append_loop part i (d, counter) =
     (if i < used part then
        (case rd (data part) i of
           Inl e \<Rightarrow> Inl e
         | Inr c \<Rightarrow>
             (case wr d counter c of
                Inl e \<Rightarrow> Inl e
              | Inr d' \<Rightarrow> append_loop part (i + 1) (d', counter + 1)))
      else Inr (d, counter))"
  by pat_completeness auto
termination
  by (relation "measure (\<lambda>(part, i, st). used part - i)") auto

declare append_loop.simps [simp del]

definition unionWith ::
  "(nat \<Rightarrow> nat \<Rightarrow> bool) \<Rightarrow> (nat \<Rightarrow> nat \<Rightarrow> bool) \<Rightarrow> nat \<Rightarrow> IntSet \<Rightarrow> IntSet \<Rightarrow> error + IntSet" where
  "unionWith gA gB DEFAULT_CAPACITY S otherIntSet =
     (case intersect DEFAULT_CAPACITY S otherIntSet of
        Inl e \<Rightarrow> Inl e
      | Inr r1 \<Rightarrow>
     (case assign (IntSet_default DEFAULT_CAPACITY) r1 of
        Inl e \<Rightarrow> Inl e
      | Inr intersectSet \<Rightarrow>
     (case subtract gA DEFAULT_CAPACITY S otherIntSet of
        Inl e \<Rightarrow> Inl e
      | Inr r2 \<Rightarrow>
     (case assign (IntSet_default DEFAULT_CAPACITY) r2 of
        Inl e \<Rightarrow> Inl e
      | Inr diffSetA \<Rightarrow>
     (case subtract gB DEFAULT_CAPACITY otherIntSet S of
        Inl e \<Rightarrow> Inl e
      | Inr r3 \<Rightarrow>
     (case assign (IntSet_default DEFAULT_CAPACITY) r3 of
        Inl e \<Rightarrow> Inl e
      | Inr diffSetB \<Rightarrow>
     (let unionSet = (IntSet_default DEFAULT_CAPACITY)
            \<lparr>used := used intersectSet + used diffSetA + used diffSetB\<rparr>
      in case append_loop intersectSet 0 (data unionSet, 0) of
           Inl e \<Rightarrow> Inl e
         | Inr st1 \<Rightarrow>
        (case append_loop diffSetA 0 st1 of
           Inl e \<Rightarrow> Inl e
         | Inr st2 \<Rightarrow>
        (case append_loop diffSetB 0 st2 of
           Inl e \<Rightarrow> Inl e
         | Inr (d, counter) \<Rightarrow> Inr (unionSet\<lparr>data := d\<rparr>))))))))))"

text \<open>
  \<^verbatim>\<open>operator==\<close>: \<^verbatim>\<open>same\<close> is assigned on three of the four paths. \<open>g1\<close> and \<open>g2\<close> belong
  to the two calls of \<^verbatim>\<open>isSubsetOf\<close>; the second call is made only when the first returned
  \<^verbatim>\<open>true\<close>.
\<close>

definition operator_eq ::
  "(nat \<Rightarrow> bool) \<Rightarrow> (nat \<Rightarrow> bool) \<Rightarrow> IntSet \<Rightarrow> IntSet \<Rightarrow> error + bool cell" where
  "operator_eq g1 g2 is1 is2 =
     (if isEmpty is1 \<and> isEmpty is2 then Inr (Some True)
      else if size_IntSet is1 \<noteq> size_IntSet is2 then Inr (Some False)
      else if size_IntSet is1 = size_IntSet is2 then
        (case isSubsetOf g1 is1 is2 of
           Inl e \<Rightarrow> Inl e
         | Inr sub1 \<Rightarrow>
             (if sub1 = Some True then
                (case isSubsetOf g2 is2 is1 of
                   Inl e \<Rightarrow> Inl e
                 | Inr sub2 \<Rightarrow> (if sub2 = Some True then Inr (Some True) else Inr None))
              else Inr None))
      else Inr None)"

section \<open>sequence (Assignment 3/Sequence.cpp)\<close>

text \<open>
  The class has the members \<^verbatim>\<open>data\<close>, \<^verbatim>\<open>used\<close>, \<^verbatim>\<open>current_index\<close> and \<^verbatim>\<open>capacity\<close>; the
  record's fields carry the prefix \<open>seq_\<close> where the name is already a field of \<open>IntSet\<close>.
  \<^verbatim>\<open>Sequence.h\<close> is not among the sources: \<^verbatim>\<open>value_type\<close> is the type variable \<open>'a\<close>, and
  \<^verbatim>\<open>size_type\<close> is an unsigned integer type, here the natural numbers. The only
  subtraction on it, \<^verbatim>\<open>used - 1\<close>, wraps around in C++ when \<^verbatim>\<open>used\<close> is zero; where it is
  evaluated \<^verbatim>\<open>current_index\<close> differs from \<^verbatim>\<open>used\<close>, so the class invariant
  \<^verbatim>\<open>current_index <= used\<close> makes \<^verbatim>\<open>used\<close> positive there.

  The growth request \<^verbatim>\<open>size_type((1.25 * capacity) + 1)\<close> is exact in a double and the
  conversion truncates: \<open>5 * capacity div 4 + 1\<close>.
\<close>

record 'a sequence =
  seq_data :: "'a cell list"
  seq_used :: nat
  current_index :: nat
  seq_capacity :: nat

text \<open>
  Modelled from the spec: the order in which the constructor initialises the members is
  the order of their declaration in \<^verbatim>\<open>Sequence.h\<close>. The initialiser list
  \<^verbatim>\<open>used(0), current_index(used), capacity(initial_capacity)\<close> is read in the order it is
  written, which gives the initial state the spec states: "empty, no current item
  (used = 0, current_index = 0 = used)".
\<close>

definition sequence_ctor :: "nat \<Rightarrow> 'a sequence" where
  "sequence_ctor initial_capacity =
     (let c = (if initial_capacity = 0 then 1 else initial_capacity)
      in \<lparr>seq_data = new_array c, seq_used = 0, current_index = 0, seq_capacity = c\<rparr>)"

definition resize_seq :: "'a sequence \<Rightarrow> nat \<Rightarrow> error + 'a sequence" where
  "resize_seq s new_capacity =
     (let n1 = (if new_capacity < seq_used s then seq_used s else new_capacity);
          n2 = (if n1 \<le> 0 then 1 else n1)
      in case copy_loop (seq_data s) (new_array n2) 0 (seq_used s) of
           Inl e \<Rightarrow> Inl e
         | Inr temp \<Rightarrow> Inr (s\<lparr>seq_data := temp, seq_capacity := n2\<rparr>))"

definition start :: "'a sequence \<Rightarrow> 'a sequence" where
  "start s = s\<lparr>current_index := 0\<rparr>"

definition size_seq :: "'a sequence \<Rightarrow> nat" where
  "size_seq s = seq_used s"

definition is_item :: "'a sequence \<Rightarrow> bool" where
  "is_item s = (if current_index s = seq_used s then False else True)"

definition current :: "'a sequence \<Rightarrow> error + 'a cell" where
  "current s =
     (if is_item s then rd (seq_data s) (current_index s) else Inl AssertionFailed)"

definition advance :: "'a sequence \<Rightarrow> 'a sequence" where
  "advance s =
     (if \<not> is_item s then s\<lparr>current_index := seq_used s\<rparr>
      else s\<lparr>current_index := current_index s + 1\<rparr>)"

text \<open>
  \<^verbatim>\<open>while (i > current_index) { data[i] = data[i - 1]; i--; }\<close> of \<^verbatim>\<open>insert\<close> and
  \<^verbatim>\<open>attach\<close>.
\<close>

function shift_right :: "'a cell list \<Rightarrow> nat \<Rightarrow> nat \<Rightarrow> error + 'a cell list" where
  "shift_right d i ci =
     (if i > ci then
        (case rd d (i - 1) of
           Inl e \<Rightarrow> Inl e
         | Inr c \<Rightarrow>
             (case wr d i c of
                Inl e \<Rightarrow> Inl e
              | Inr d' \<Rightarrow> shift_right d' (i - 1) ci))
      else Inr d)"
  by pat_completeness auto
termination
  by (relation "measure (\<lambda>(d, i, ci). i)") auto

declare shift_right.simps [simp del]

definition insert_seq :: "'a sequence \<Rightarrow> 'a \<Rightarrow> error + 'a sequence" where
  "insert_seq s entry =
     (case (if seq_used s = seq_capacity s
            then resize_seq s (5 * seq_capacity s div 4 + 1)
            else Inr s) of
        Inl e \<Rightarrow> Inl e
      | Inr s1 \<Rightarrow>
          (let s2 = (if current_index s1 = seq_used s1 then s1\<lparr>current_index := 0\<rparr> else s1)
           in case shift_right (seq_data s2) (seq_used s2) (current_index s2) of
                Inl e \<Rightarrow> Inl e
              | Inr d \<Rightarrow>
                  (case wr d (current_index s2) (Some entry) of
                     Inl e \<Rightarrow> Inl e
                   | Inr d' \<Rightarrow> Inr (s2\<lparr>seq_data := d', seq_used := seq_used s2 + 1\<rparr>))))"

definition attach :: "'a sequence \<Rightarrow> 'a \<Rightarrow> error + 'a sequence" where
  "attach s entry =
     (case (if seq_used s = seq_capacity s
            then resize_seq s (5 * seq_capacity s div 4 + 1)
            else Inr s) of
        Inl e \<Rightarrow> Inl e
      | Inr s1 \<Rightarrow>
          (if current_index s1 = seq_used s1 then
             (case wr (seq_data s1) (current_index s1) (Some entry) of
                Inl e \<Rightarrow> Inl e
              | Inr d \<Rightarrow> Inr (s1\<lparr>seq_data := d, seq_used := seq_used s1 + 1\<rparr>))
           else if current_index s1 = seq_used s1 - 1 then
             (case wr (seq_data s1) (current_index s1 + 1) (Some entry) of
                Inl e \<Rightarrow> Inl e
              | Inr d \<Rightarrow>
                  Inr (s1\<lparr>seq_data := d, current_index := current_index s1 + 1,
                         seq_used := seq_used s1 + 1\<rparr>))
           else
             (case shift_right (seq_data s1) (seq_used s1) (current_index s1) of
                Inl e \<Rightarrow> Inl e
              | Inr d \<Rightarrow>
                  (case wr d (current_index s1 + 1) (Some entry) of
                     Inl e \<Rightarrow> Inl e
                   | Inr d' \<Rightarrow>
                       Inr (s1\<lparr>seq_data := d', current_index := current_index s1 + 1,
                              seq_used := seq_used s1 + 1\<rparr>)))))"

text \<open>
  \<^verbatim>\<open>remove_current\<close>: the loop \<^verbatim>\<open>for (i = current_index; i < used; i++) data[i] = data[i + 1];\<close>
  is \<open>shift_left\<close>. Each round reads index \<open>i + 1\<close> and then writes index \<open>i\<close>.
\<close>

function shift_left :: "'a cell list \<Rightarrow> nat \<Rightarrow> nat \<Rightarrow> error + 'a cell list" where
  "shift_left d i n =
     (if i < n then
        (case rd d (i + 1) of
           Inl e \<Rightarrow> Inl e
         | Inr c \<Rightarrow>
             (case wr d i c of
                Inl e \<Rightarrow> Inl e
              | Inr d' \<Rightarrow> shift_left d' (i + 1) n))
      else Inr d)"
  by pat_completeness auto
termination
  by (relation "measure (\<lambda>(d, i, n). n - i)") auto

declare shift_left.simps [simp del]

definition remove_current :: "'a sequence \<Rightarrow> error + 'a sequence" where
  "remove_current s =
     (if \<not> is_item s then Inl AssertionFailed
      else if current_index s = seq_used s - 1 then
        Inr (s\<lparr>seq_used := seq_used s - 1, current_index := seq_used s - 1\<rparr>)
      else
        (case shift_left (seq_data s) (current_index s) (seq_used s) of
           Inl e \<Rightarrow> Inl e
         | Inr d \<Rightarrow> Inr (s\<lparr>seq_data := d, seq_used := seq_used s - 1\<rparr>)))"

section \<open>Elements in use, test drivers and invariants\<close>

text \<open>
  The cells in use, in order: \<^verbatim>\<open>data[0]\<close> to \<^verbatim>\<open>data[used - 1]\<close>, for a set or a sequence
  whose \<^verbatim>\<open>used\<close> does not exceed the size of its array. For a sequence this is its logical
  order.
\<close>

definition elements :: "IntSet \<Rightarrow> int cell list" where
  "elements S = take (used S) (data S)"

definition items :: "'a sequence \<Rightarrow> 'a cell list" where
  "items s = take (seq_used s) (seq_data s)"

text \<open>
  \<^verbatim>\<open>s.add(v1); ... s.add(vn);\<close>: the set a caller builds by adding the values of a list
  in order to a set \<^verbatim>\<open>s\<close>. What \<^verbatim>\<open>contains\<close> reads from its local is fixed to \<open>False\<close>
  here; \<open>add\<close> overwrites the flag it computes from it.
\<close>

fun add_all :: "nat \<Rightarrow> IntSet \<Rightarrow> int list \<Rightarrow> error + IntSet" where
  "add_all DEFAULT_CAPACITY S [] = Inr S"
| "add_all DEFAULT_CAPACITY S (v # vs) =
     (case add False DEFAULT_CAPACITY S v of
        Inl e \<Rightarrow> Inl e
      | Inr (addSuccessful, S') \<Rightarrow> add_all DEFAULT_CAPACITY S' vs)"

text \<open>
  The representation invariants the two files state in their opening comments, as far as
  they concern the array: \<^verbatim>\<open>capacity\<close> is the size of the array \<^verbatim>\<open>data\<close> points to, and
  \<^verbatim>\<open>used\<close> of its elements are in use. An \<open>IntSet\<close> has room for at least one element (with
  a positive \<^verbatim>\<open>DEFAULT_CAPACITY\<close> its constructor and \<^verbatim>\<open>resize\<close> never allocate an empty
  array), and the \<^verbatim>\<open>current_index\<close> of a sequence is at most \<^verbatim>\<open>used\<close>.
\<close>

definition IntSet_inv :: "IntSet \<Rightarrow> bool" where
  "IntSet_inv S = (length (data S) = capacity S \<and> used S \<le> capacity S \<and> 0 < capacity S)"

definition sequence_inv :: "'a sequence \<Rightarrow> bool" where
  "sequence_inv s =
     (length (seq_data s) = seq_capacity s \<and> seq_used s \<le> seq_capacity s
      \<and> current_index s \<le> seq_used s)"

section \<open>Array accesses and the copy loop\<close>

lemma wr_in [simp]: "i < length xs \<Longrightarrow> wr xs i c = Inr (xs[i := c])"
  by (simp add: wr_def)

lemma wr_out [simp]: "\<not> i < length xs \<Longrightarrow> wr xs i c = Inl (OutOfBounds i (length xs))"
  by (simp add: wr_def)

lemma rd_in [simp]: "i < length xs \<Longrightarrow> rd xs i = Inr (xs ! i)"
  by (simp add: rd_def)

lemma rd_out [simp]: "\<not> i < length xs \<Longrightarrow> rd xs i = Inl (OutOfBounds i (length xs))"
  by (simp add: rd_def)

lemma length_new_array [simp]: "length (new_array n) = n"
  by (simp add: new_array_def)

lemma copy_loop_ok:
  "n \<le> length dst \<Longrightarrow> n \<le> length src \<Longrightarrow> i \<le> n \<Longrightarrow>
   copy_loop src dst i n = Inr (take i dst @ map ((!) src) [i..<n] @ drop n dst)"
proof (induction src dst i n rule: copy_loop.induct)
  case (1 src dst i n)
  show ?case
  proof (cases "i < n")
    case False
    with "1.prems" show ?thesis
      by (subst copy_loop.simps) simp
  next
    case True
    with "1.prems" have r: "rd src i = Inr (src ! i)"
      and w: "wr dst i (src ! i) = Inr (dst[i := src ! i])"
      by simp_all
    from True "1.prems" have
      "copy_loop src (dst[i := src ! i]) (i + 1) n =
         Inr (take (i + 1) (dst[i := src ! i]) @ map ((!) src) [i + 1..<n]
              @ drop n (dst[i := src ! i]))"
      by (intro "1.IH" [OF True r w]) simp_all
    with True "1.prems" r w show ?thesis
      by (subst copy_loop.simps) (simp add: upt_conv_Cons take_Suc_conv_app_nth)
  qed
qed

lemma copy_loop_stops:
  "length dst < n \<Longrightarrow> i \<le> length dst \<Longrightarrow> \<exists>j m. copy_loop src dst i n = Inl (OutOfBounds j m)"
proof (induction src dst i n rule: copy_loop.induct)
  case (1 src dst i n)
  from "1.prems" have "i < n"
    by simp
  show ?case
  proof (cases "i < length src")
    case False
    with \<open>i < n\<close> show ?thesis
      by (subst copy_loop.simps) simp
  next
    case src: True
    then have r: "rd src i = Inr (src ! i)"
      by simp
    show ?thesis
    proof (cases "i < length dst")
      case False
      with \<open>i < n\<close> r show ?thesis
        by (subst copy_loop.simps) simp
    next
      case True
      then have w: "wr dst i (src ! i) = Inr (dst[i := src ! i])"
        by simp
      from True "1.prems" "1.IH" [OF \<open>i < n\<close> r w] \<open>i < n\<close> r w show ?thesis
        by (subst copy_loop.simps) simp
    qed
  qed
qed

lemma copy_loop_oob:
  "length dst < n \<Longrightarrow> i \<le> length dst \<Longrightarrow> n \<le> length src \<Longrightarrow>
   copy_loop src dst i n = Inl (OutOfBounds (length dst) (length dst))"
proof (induction src dst i n rule: copy_loop.induct)
  case (1 src dst i n)
  from "1.prems" have "i < n" and r: "rd src i = Inr (src ! i)"
    by simp_all
  show ?case
  proof (cases "i < length dst")
    case False
    with "1.prems" \<open>i < n\<close> r show ?thesis
      by (subst copy_loop.simps) simp
  next
    case True
    then have w: "wr dst i (src ! i) = Inr (dst[i := src ! i])"
      by simp
    from True "1.prems" "1.IH" [OF \<open>i < n\<close> r w] \<open>i < n\<close> r w show ?thesis
      by (subst copy_loop.simps) simp
  qed
qed

section \<open>IntSet: what the operations compute\<close>

lemma length_elements [simp]: "used S \<le> length (data S) \<Longrightarrow> length (elements S) = used S"
  by (simp add: elements_def)

lemma nth_elements [simp]: "k < used S \<Longrightarrow> elements S ! k = data S ! k"
  by (simp add: elements_def)

lemma in_elements_iff:
  "used S \<le> length (data S) \<Longrightarrow>
   c \<in> set (elements S) \<longleftrightarrow> (\<exists>k < used S. data S ! k = c)"
  by (auto simp: in_set_conv_nth)

lemma DumpData_loop_ok:
  "used S \<le> length (data S) \<Longrightarrow> i \<le> used S \<Longrightarrow>
   DumpData_loop S i out = Inr (out @ drop i (elements S))"
proof (induction S i out rule: DumpData_loop.induct)
  case (1 S i out)
  show ?case
  proof (cases "i < used S")
    case False
    with "1.prems" show ?thesis
      by (subst DumpData_loop.simps) simp
  next
    case True
    with "1.prems" have r: "rd (data S) i = Inr (data S ! i)"
      by simp
    from True "1.prems" have "drop i (elements S) = data S ! i # drop (i + 1) (elements S)"
      by (simp add: Cons_nth_drop_Suc [symmetric])
    with True "1.prems" "1.IH" [OF True r] r show ?thesis
      by (subst DumpData_loop.simps) simp
  qed
qed

lemma DumpData_ok: "used S \<le> length (data S) \<Longrightarrow> DumpData S = Inr (elements S)"
proof (cases "used S = 0")
  case True
  then show ?thesis
    by (simp add: DumpData_def elements_def)
next
  case False
  assume le: "used S \<le> length (data S)"
  with False have "elements S = data S ! 0 # drop 1 (elements S)"
    using Cons_nth_drop_Suc [of 0 "elements S"] by simp
  moreover from False le have "rd (data S) 0 = Inr (data S ! 0)"
    by (auto simp: rd_def)
  moreover from False le have "DumpData_loop S 1 [data S ! 0] = Inr ([data S ! 0] @ drop 1 (elements S))"
    by (intro DumpData_loop_ok) simp_all
  ultimately show ?thesis
    using False by (simp add: DumpData_def)
qed

lemma contains_loop_eq:
  "used S \<le> length (data S) \<Longrightarrow>
   contains_loop S v found i
     = Inr (found \<or> (\<exists>k. i \<le> k \<and> k < used S \<and> data S ! k = Some v))"
proof (induction S v found i rule: contains_loop.induct)
  case (1 S anInt found index)
  show ?case
  proof (cases "found \<noteq> True \<and> index < used S")
    case False
    then show ?thesis
      by (subst contains_loop.simps) auto
  next
    case True
    with "1.prems" have r: "rd (data S) index = Inr (data S ! index)"
      by simp
    have "(\<exists>k. index \<le> k \<and> k < used S \<and> data S ! k = Some anInt)
        = (data S ! index = Some anInt
           \<or> (\<exists>k. index + 1 \<le> k \<and> k < used S \<and> data S ! k = Some anInt))"
    proof
      assume "\<exists>k. index \<le> k \<and> k < used S \<and> data S ! k = Some anInt"
      then obtain k where "index \<le> k" "k < used S" "data S ! k = Some anInt"
        by blast
      then show "data S ! index = Some anInt
           \<or> (\<exists>k. index + 1 \<le> k \<and> k < used S \<and> data S ! k = Some anInt)"
        by (cases "k = index") auto
    next
      assume "data S ! index = Some anInt
           \<or> (\<exists>k. index + 1 \<le> k \<and> k < used S \<and> data S ! k = Some anInt)"
      with True show "\<exists>k. index \<le> k \<and> k < used S \<and> data S ! k = Some anInt"
        by (auto intro: Suc_leD)
    qed
    with True "1.IH" [OF True r "1.prems"] r show ?thesis
      by (subst contains_loop.simps) simp
  qed
qed

lemma contains_eq:
  "used S \<le> length (data S) \<Longrightarrow>
   contains found0 S v = Inr (used S \<noteq> 0 \<and> (found0 \<or> Some v \<in> set (elements S)))"
  by (auto simp: contains_def isEmpty_def size_IntSet_def contains_loop_eq in_elements_iff)

lemma remove_loop_absent:
  "used S \<le> length (data S) \<Longrightarrow>
   (\<And>k. i \<le> k \<Longrightarrow> k < used S \<Longrightarrow> data S ! k \<noteq> Some v) \<Longrightarrow>
   remove_loop S v i = Inr (False, S)"
proof (induction S v i rule: remove_loop.induct)
  case (1 S anInt i)
  show ?case
  proof (cases "i < used S")
    case False
    then show ?thesis
      by (subst remove_loop.simps) simp
  next
    case True
    with "1.prems"(1) have r: "rd (data S) i = Inr (data S ! i)"
      by simp
    from True "1.prems"(2) [of i] have ne: "data S ! i \<noteq> Some anInt"
      by simp
    have "remove_loop S anInt (i + 1) = Inr (False, S)"
      using "1.prems" by (intro "1.IH" [OF True r ne]) simp_all
    with True ne r show ?thesis
      by (subst remove_loop.simps) simp
  qed
qed

lemma remove_eq:
  assumes "used S \<le> length (data S)"
  shows "remove found0 S v = (if used S = 0 then Inr (False, S) else remove_loop S v 0)"
proof (cases "used S = 0 \<or> (found0 \<or> Some v \<in> set (elements S))")
  case True
  with assms show ?thesis
    by (auto simp: remove_def isEmpty_def size_IntSet_def contains_eq)
next
  case False
  with assms have "\<And>k. k < used S \<Longrightarrow> data S ! k \<noteq> Some v"
    by (auto simp: in_elements_iff)
  with assms have "remove_loop S v 0 = Inr (False, S)"
    by (intro remove_loop_absent) simp_all
  with False assms show ?thesis
    by (simp add: remove_def isEmpty_def size_IntSet_def contains_eq)
qed

lemma IntSet_default_eq:
  "IntSet_default dc = \<lparr>data = new_array dc, used = 0, capacity = dc\<rparr>"
  by (simp add: IntSet_default_def IntSet_ctor_def Let_def)

lemma resize_ok:
  assumes "IntSet_inv S" and "used S < n"
  shows "\<exists>S'. resize dc S n = Inr S' \<and> IntSet_inv S' \<and> elements S' = elements S
           \<and> used S' = used S \<and> used S' < capacity S' \<and> capacity S' = max dc n"
proof -
  let ?n2 = "max dc n"
  let ?d = "map ((!) (data S)) [0..<used S] @ drop (used S) (new_array ?n2)"
  let ?S' = "S\<lparr>data := ?d, capacity := ?n2\<rparr>"
  from assms have ul: "used S \<le> length (data S)"
    by (simp add: IntSet_inv_def)
  from assms(2) ul have c: "copy_loop (data S) (new_array ?n2) 0 (used S) = Inr ?d"
    using copy_loop_ok [of "used S" "new_array ?n2" "data S" 0] by simp
  from assms(2) have
    "(let n1 = (if n < used S then used S else n) in (if n1 < dc then dc else n1)) = ?n2"
    by (simp add: Let_def max_def)
  with c have r: "resize dc S n = Inr ?S'"
    unfolding resize_def by (simp add: Let_def)
  from assms(2) have "IntSet_inv ?S'"
    by (auto simp: IntSet_inv_def max_def)
  moreover from ul have "elements ?S' = elements S"
    by (auto simp: elements_def intro!: nth_equalityI)
  ultimately show ?thesis
    using r assms(2) by (intro exI [of _ ?S']) simp
qed

lemma add_ok:
  assumes "IntSet_inv S"
  shows "\<exists>S'. add found0 dc S v = Inr (True, S') \<and> IntSet_inv S' \<and> used S' = used S + 1
           \<and> elements S' = elements S @ [Some v]"
proof (cases "used S = 0")
  case True
  let ?S' = "S\<lparr>data := (data S)[0 := Some v], used := 1\<rparr>"
  from assms True have "add found0 dc S v = Inr (True, ?S')"
    by (simp add: add_def isEmpty_def size_IntSet_def IntSet_inv_def)
  moreover from assms have "IntSet_inv ?S'"
    by (simp add: IntSet_inv_def)
  moreover from assms True have "elements ?S' = elements S @ [Some v]"
    by (simp add: elements_def IntSet_inv_def take_Suc_conv_app_nth)
  ultimately show ?thesis
    using True by (intro exI [of _ ?S']) simp
next
  case False
  from assms have ul0: "used S \<le> length (data S)"
    by (simp add: IntSet_inv_def)
  have "\<exists>S1. (if capacity S \<le> used S then resize dc S (3 * capacity S div 2 + 1) else Inr S)
            = Inr S1
          \<and> IntSet_inv S1 \<and> elements S1 = elements S \<and> used S1 = used S
          \<and> used S1 < capacity S1"
  proof (cases "capacity S \<le> used S")
    case True
    with assms have "used S < 3 * capacity S div 2 + 1"
      by (simp add: IntSet_inv_def)
    from resize_ok [OF assms this, of dc] True show ?thesis
      by auto
  next
    case False
    with assms show ?thesis
      by simp
  qed
  then obtain S1 where
    g: "(if capacity S \<le> used S then resize dc S (3 * capacity S div 2 + 1) else Inr S) = Inr S1"
    and S1: "IntSet_inv S1" "elements S1 = elements S" "used S1 = used S" "used S1 < capacity S1"
    by blast
  let ?S' = "S1\<lparr>data := (data S1)[used S := Some v], used := used S + 1\<rparr>"
  from S1 have ul: "used S < length (data S1)"
    by (simp add: IntSet_inv_def)
  with False g S1(3) ul0 have "add found0 dc S v = Inr (True, ?S')"
    by (simp add: add_def isEmpty_def size_IntSet_def Let_def contains_eq)
  moreover from S1 have "IntSet_inv ?S'"
    by (simp add: IntSet_inv_def)
  moreover have "elements ?S' = elements S @ [Some v]"
    unfolding S1(2) [symmetric] using ul S1(3)
    by (simp add: elements_def take_Suc_conv_app_nth)
  ultimately show ?thesis
    by (intro exI [of _ ?S']) simp
qed

lemma IntSet_ctor_inv: "0 < dc \<Longrightarrow> IntSet_inv (IntSet_ctor dc ic)"
  by (simp add: IntSet_ctor_def IntSet_inv_def Let_def)

lemma IntSet_ctor_inv1: "0 < ic \<Longrightarrow> IntSet_inv (IntSet_ctor dc ic)"
  by (simp add: IntSet_ctor_def IntSet_inv_def Let_def)

lemma add_then_contains:
  assumes "IntSet_inv S" and "add found0 dc S v = Inr (b, S')"
  shows "contains found1 S' v = Inr True"
proof -
  from add_ok [OF assms(1), of found0 dc v] assms(2) have
    "IntSet_inv S'" "used S' = used S + 1" "elements S' = elements S @ [Some v]"
    by auto
  then show ?thesis
    by (simp add: contains_eq IntSet_inv_def)
qed

lemma add_new_value:
  assumes "IntSet_inv S" and "Some v \<notin> set (elements S)"
  shows "\<exists>S'. add found0 dc S v = Inr (True, S') \<and> IntSet_inv S'
           \<and> DumpData S' = Inr (elements S @ [Some v])
           \<and> size_IntSet S' = size_IntSet S + 1 \<and> contains found1 S' v = Inr True"
proof -
  from add_ok [OF assms(1), of found0 dc v] obtain S' where
    S': "add found0 dc S v = Inr (True, S')" "IntSet_inv S'" "used S' = used S + 1"
      "elements S' = elements S @ [Some v]"
    by blast
  from S'(2) have "DumpData S' = Inr (elements S')"
    by (simp add: DumpData_ok IntSet_inv_def)
  with add_then_contains [OF assms(1) S'(1)] S' show ?thesis
    by (auto simp: size_IntSet_def)
qed

lemma new_array_split: "k \<le> n \<Longrightarrow> new_array n = replicate k None @ replicate (n - k) None"
  by (simp add: new_array_def flip: replicate_add)

text \<open>
  The recursion equations of the loops and the definitions of the small operations, for
  running an operation on a given set by rewriting.
\<close>

lemmas run_simps =
  copy_loop.simps shift_loop.simps remove_loop.simps contains_loop.simps
  isSubsetOf_loop.simps intersect_inner.simps intersect_outer.simps
  subtract_inner.simps subtract_outer.simps append_loop.simps DumpData_loop.simps

lemmas union_simps =
  unionWith_def intersect_def subtract_def assign_def IntSet_default_eq isEmpty_def
  size_IntSet_def same_value_def rd_def wr_def Let_def remove_eq run_simps

subsection \<open>add\<close>

text \<open>
  C1. For a value that is not yet a member the claim holds: \<open>add_new_value\<close> above gives
  the returned \<^verbatim>\<open>true\<close>, the value stored at position \<^verbatim>\<open>used\<close>, the size grown by one and
  the membership afterwards, with every access inside the array. By \<open>add_ok\<close> the same
  happens for a value that is a member, and that is where the claim fails:
  \<^verbatim>\<open>add\<close> computes \<^verbatim>\<open>contains(anInt)\<close>, stores the answer in \<^verbatim>\<open>addSuccessful\<close> and then
  appends in any case. The theorem runs the code on the set \<^verbatim>\<open>IntSet s(1); s.add(5);\<close>,
  for every \<^verbatim>\<open>DEFAULT_CAPACITY\<close> and whatever the uninitialised locals held: 5 is a
  member, and \<^verbatim>\<open>s.add(5)\<close> returns \<^verbatim>\<open>true\<close> and leaves a set of size 2 that prints 5 5.
\<close>

theorem add_member_again:
  "add found0 dc (IntSet_ctor dc 1) 5 = Inr (True, \<lparr>data = [Some 5], used = 1, capacity = 1\<rparr>)
   \<and> contains found1 \<lparr>data = [Some 5], used = 1, capacity = 1\<rparr> 5 = Inr True
   \<and> (\<exists>S'. add found2 dc \<lparr>data = [Some 5], used = 1, capacity = 1\<rparr> 5 = Inr (True, S')
          \<and> size_IntSet S' = 2 \<and> DumpData S' = Inr [Some 5, Some 5])"
proof -
  let ?S = "\<lparr>data = [Some 5], used = 1, capacity = 1\<rparr>"
  have a: "add found0 dc (IntSet_ctor dc 1) 5 = Inr (True, ?S)"
    by (simp add: add_def IntSet_ctor_def new_array_def isEmpty_def size_IntSet_def Let_def)
  have c: "contains found1 ?S 5 = Inr True"
    by (simp add: contains_eq elements_def)
  have inv: "IntSet_inv ?S"
    by (simp add: IntSet_inv_def)
  have e: "elements ?S = [Some 5]"
    by (simp add: elements_def)
  from add_ok [OF inv, of found2 dc 5] obtain S' where
    S': "add found2 dc ?S 5 = Inr (True, S')" "IntSet_inv S'" "used S' = used ?S + 1"
      "elements S' = elements ?S @ [Some 5]"
    by blast
  from S'(2) have "DumpData S' = Inr (elements S')"
    by (simp add: DumpData_ok IntSet_inv_def)
  with S' e a c show ?thesis
    by (auto simp: size_IntSet_def)
qed

text \<open>
  C2. The elements in use are not pairwise distinct in every reachable state: adding the
  same value twice to a set constructed with capacity 1 leaves it stored twice, so that
  the set prints it twice, for every value, every \<^verbatim>\<open>DEFAULT_CAPACITY\<close> and whatever the
  uninitialised locals held.
\<close>

theorem add_twice_duplicates:
  "\<exists>S1 S2 printed. add found0 dc (IntSet_ctor dc 1) v = Inr (True, S1)
      \<and> add found1 dc S1 v = Inr (True, S2)
      \<and> DumpData S2 = Inr printed \<and> printed = [Some v, Some v] \<and> \<not> distinct printed"
proof -
  have i0: "IntSet_inv (IntSet_ctor dc 1)"
    by (simp add: IntSet_ctor_inv1)
  have d0: "elements (IntSet_ctor dc 1) = []"
    by (simp add: elements_def IntSet_ctor_def)
  from add_ok [OF i0, of found0 dc v] d0 obtain S1 where
    S1: "add found0 dc (IntSet_ctor dc 1) v = Inr (True, S1)" "IntSet_inv S1"
      "elements S1 = [Some v]"
    by auto
  from add_ok [OF S1(2), of found1 dc v] S1(3) obtain S2 where
    S2: "add found1 dc S1 v = Inr (True, S2)" "IntSet_inv S2" "elements S2 = [Some v, Some v]"
    by auto
  from S2(2) have "DumpData S2 = Inr (elements S2)"
    by (simp add: DumpData_ok IntSet_inv_def)
  with S1(1) S2 show ?thesis
    by (intro exI [of _ S1] exI [of _ S2] exI [of _ "[Some v, Some v]"]) simp
qed

subsection \<open>subtract and unionWith\<close>

text \<open>
  The sets of the next two theorems are \<^verbatim>\<open>IntSet s(2); s.add(1); s.add(2);\<close> and
  \<^verbatim>\<open>IntSet t(2); t.add(2); t.add(1);\<close>: the same two members, added in opposite orders.
\<close>

lemma sets_12_21:
  "add_all dc (IntSet_ctor dc 2) [1, 2] = Inr \<lparr>data = [Some 1, Some 2], used = 2, capacity = 2\<rparr>"
  "add_all dc (IntSet_ctor dc 2) [2, 1] = Inr \<lparr>data = [Some 2, Some 1], used = 2, capacity = 2\<rparr>"
  by (simp_all add: add_def IntSet_ctor_def new_array_def isEmpty_def size_IntSet_def wr_def
      contains_eq Let_def numeral_2_eq_2)

text \<open>
  C3. \<^verbatim>\<open>subtract\<close> does not return the difference for every pair of operands. When
  \<^verbatim>\<open>diff.remove\<close> has removed the element at index \<open>i\<close>, the next element has moved to
  index \<open>i\<close>; the inner loop compares it only with the elements of the other set that are
  still to come, and the outer loop then goes on to \<open>i + 1\<close>. For \<open>{1, 2}\<close> minus \<open>{2, 1}\<close> the
  result is the set \<open>{2}\<close>, not the empty set, whatever the uninitialised locals held.
  (With \<^verbatim>\<open>DEFAULT_CAPACITY\<close> below 2 the result array is too small for the copy of
  \<open>{1, 2}\<close> and the second write falls outside it.)
\<close>

theorem subtract_skips_shifted_element:
  "subtract g dc \<lparr>data = [Some 1, Some 2], used = 2, capacity = 2\<rparr>
                 \<lparr>data = [Some 2, Some 1], used = 2, capacity = 2\<rparr>
   = (if dc < 2 then Inl (OutOfBounds dc dc)
      else Inr \<lparr>data = Some 2 # Some 2 # replicate (dc - 2) None, used = 1, capacity = dc\<rparr>)"
proof -
  consider "dc = 0" | "dc = 1" | "2 \<le> dc"
    by arith
  then show ?thesis
  proof cases
    case 1
    then show ?thesis
      by (simp add: union_simps new_array_def)
  next
    case 2
    then show ?thesis
      by (simp add: union_simps new_array_def)
  next
    case 3
    then have n: "new_array dc = None # None # replicate (dc - 2) None"
      using new_array_split [of 2 dc] by (simp add: numeral_2_eq_2)
    from 3 show ?thesis
      by (simp add: union_simps n)
  qed
qed

text \<open>
  C4. \<^verbatim>\<open>unionWith\<close> does not return every value exactly once. It concatenates the
  intersection and the two differences, and the differences are computed by \<^verbatim>\<open>subtract\<close>:
  for \<open>{1, 2}\<close> and \<open>{2, 1}\<close> they are \<open>{2}\<close> and \<open>{1}\<close> instead of empty, and the union is
  stored as 1 2 2 1 with \<^verbatim>\<open>used\<close> 4. (With \<^verbatim>\<open>DEFAULT_CAPACITY\<close> below 4 one of the
  result arrays is too small and a write falls outside it.)
\<close>

theorem unionWith_repeats_elements:
  "unionWith gA gB dc \<lparr>data = [Some 1, Some 2], used = 2, capacity = 2\<rparr>
                      \<lparr>data = [Some 2, Some 1], used = 2, capacity = 2\<rparr>
   = (if dc < 4 then Inl (OutOfBounds dc dc)
      else Inr \<lparr>data = Some 1 # Some 2 # Some 2 # Some 1 # replicate (dc - 4) None,
               used = 4, capacity = dc\<rparr>)"
proof -
  consider "dc = 0" | "dc = 1" | "dc = 2" | "dc = 3" | "4 \<le> dc"
    by arith
  then show ?thesis
  proof cases
    case 1
    then show ?thesis
      by (simp add: union_simps new_array_def)
  next
    case 2
    then show ?thesis
      by (simp add: union_simps new_array_def)
  next
    case 3
    then show ?thesis
      by (simp add: union_simps new_array_def)
  next
    case 4
    then show ?thesis
      by (simp add: union_simps new_array_def)
  next
    case 5
    then have n: "new_array dc = None # None # None # None # replicate (dc - 4) None"
      using new_array_split [of 4 dc] by (simp add: numeral_eq_Suc)
    from 5 show ?thesis
      by (simp add: union_simps n)
  qed
qed

subsection \<open>Writes and the capacity\<close>

text \<open>
  \<^verbatim>\<open>add\<close> grows the array before it writes: by \<open>add_ok\<close> it never accesses an index
  outside the array of a set that satisfies the invariant. \<^verbatim>\<open>intersect\<close>, \<^verbatim>\<open>subtract\<close> and
  \<^verbatim>\<open>unionWith\<close> write into a default-constructed result and never call \<^verbatim>\<open>resize\<close>.

  C5. Not every element write lands inside the array. \<^verbatim>\<open>subtract\<close> copies all \<^verbatim>\<open>used\<close>
  elements of the invoking set into the array of \<^verbatim>\<open>DEFAULT_CAPACITY\<close> cells of its result.
  Whenever the invoking set has more than \<^verbatim>\<open>DEFAULT_CAPACITY\<close> elements the call stops at
  an access outside an array, whatever the other operand is; and when the elements of the
  invoking set lie inside its own array, as the invariant says, that access is the write
  at index \<^verbatim>\<open>DEFAULT_CAPACITY\<close> of the result's array.
\<close>

theorem subtract_writes_out_of_bounds:
  "dc < used S \<Longrightarrow>
   (\<exists>i n. subtract g dc S otherIntSet = Inl (OutOfBounds i n))
   \<and> (used S \<le> length (data S) \<longrightarrow> subtract g dc S otherIntSet = Inl (OutOfBounds dc dc))"
proof
  assume lt: "dc < used S"
  from copy_loop_stops [of "new_array dc" "used S" 0 "data S"] lt
  show "\<exists>i n. subtract g dc S otherIntSet = Inl (OutOfBounds i n)"
    by (auto simp: subtract_def IntSet_default_eq Let_def)
  from copy_loop_oob [of "new_array dc" "used S" 0 "data S"] lt
  show "used S \<le> length (data S) \<longrightarrow> subtract g dc S otherIntSet = Inl (OutOfBounds dc dc)"
    by (simp add: subtract_def IntSet_default_eq Let_def)
qed

theorem subtract_writes_out_of_bounds_witness:
  "1 < used \<lparr>data = [Some 1, Some 2], used = 2, capacity = 2\<rparr>
   \<and> subtract (\<lambda>i j. False) 1 \<lparr>data = [Some 1, Some 2], used = 2, capacity = 2\<rparr>
        (IntSet_default 1) = Inl (OutOfBounds 1 1)"
proof -
  have h: "1 < used \<lparr>data = [Some 1, Some 2], used = 2, capacity = 2\<rparr>"
    by simp
  from subtract_writes_out_of_bounds [OF h] h show ?thesis
    by simp
qed

lemma intersect_out_of_bounds_example:
  "intersect 1 \<lparr>data = [Some 1, Some 2], used = 2, capacity = 2\<rparr>
               \<lparr>data = [Some 1, Some 2], used = 2, capacity = 2\<rparr> = Inl (OutOfBounds 1 1)"
  by (simp add: union_simps new_array_def)

subsection \<open>operator==\<close>

text \<open>
  C6. \<^verbatim>\<open>operator==\<close> does not return \<^verbatim>\<open>false\<close> for two non-empty sets of the same size that
  are not subsets of each other: on that path nothing is assigned to \<^verbatim>\<open>same\<close>, and the
  function returns the uninitialised local. For \<open>{1}\<close> and \<open>{2}\<close> the result is
  indeterminate, or \<^verbatim>\<open>true\<close> when the uninitialised \<^verbatim>\<open>found\<close> of both \<^verbatim>\<open>contains\<close> calls
  happened to hold \<^verbatim>\<open>true\<close>; it is never a determinate \<^verbatim>\<open>false\<close>.
\<close>

theorem operator_eq_unequal_sets:
  "operator_eq g1 g2 \<lparr>data = [Some 1], used = 1, capacity = 1\<rparr>
                     \<lparr>data = [Some 2], used = 1, capacity = 1\<rparr>
   = Inr (if g1 0 \<and> g2 0 then Some True else None)"
  by (simp add: operator_eq_def isSubsetOf_def contains_def isEmpty_def size_IntSet_def
      rd_def Let_def run_simps)

text \<open>
  The example of the claim holds: \<open>{1, 2, 3}\<close> and \<open>{3, 2, 1}\<close> compare equal, whatever the
  uninitialised locals held.
\<close>

lemma operator_eq_123_321:
  "operator_eq g1 g2 \<lparr>data = [Some 1, Some 2, Some 3], used = 3, capacity = 3\<rparr>
                     \<lparr>data = [Some 3, Some 2, Some 1], used = 3, capacity = 3\<rparr> = Inr (Some True)"
  by (simp add: operator_eq_def isSubsetOf_def contains_eq elements_def isEmpty_def
      size_IntSet_def rd_def Let_def isSubsetOf_loop.simps)

section \<open>sequence: insertion\<close>

lemma items_take: "items s = take (seq_used s) (seq_data s)"
  by (simp add: items_def)

lemma length_items [simp]: "seq_used s \<le> length (seq_data s) \<Longrightarrow> length (items s) = seq_used s"
  by (simp add: items_def)

lemma shift_right_ok:
  "i < length d \<Longrightarrow> ci \<le> i \<Longrightarrow>
   \<exists>d'. shift_right d i ci = Inr d' \<and> length d' = length d \<and>
        (\<forall>k < length d. d' ! k = (if ci < k \<and> k \<le> i then d ! (k - 1) else d ! k))"
proof (induction d i ci rule: shift_right.induct)
  case (1 d i ci)
  show ?case
  proof (cases "ci < i")
    case False
    with "1.prems" show ?thesis
      by (subst shift_right.simps) auto
  next
    case True
    let ?d1 = "d[i := d ! (i - 1)]"
    from True "1.prems" have r: "rd d (i - 1) = Inr (d ! (i - 1))"
      and w: "wr d i (d ! (i - 1)) = Inr ?d1"
      by simp_all
    from True "1.prems" have "i - 1 < length ?d1" "ci \<le> i - 1"
      by simp_all
    from "1.IH" [OF True r w this] obtain d' where
      d': "shift_right ?d1 (i - 1) ci = Inr d'" "length d' = length d"
      and nth: "\<forall>k < length d. d' ! k = (if ci < k \<and> k \<le> i - 1 then ?d1 ! (k - 1) else ?d1 ! k)"
      by auto
    have "\<forall>k < length d. d' ! k = (if ci < k \<and> k \<le> i then d ! (k - 1) else d ! k)"
      using nth True "1.prems" by (auto simp: nth_list_update)
    with d' True r w show ?thesis
      by (subst shift_right.simps) simp
  qed
qed


lemma insert_at_eqI:
  assumes "length ys = Suc (length xs)" "p \<le> length xs"
    and "\<And>k. k < Suc (length xs) \<Longrightarrow>
           ys ! k = (if k < p then xs ! k else if k = p then e else xs ! (k - 1))"
  shows "ys = take p xs @ e # drop p xs"
proof (rule nth_equalityI)
  from assms(1,2) show "length ys = length (take p xs @ e # drop p xs)"
    by simp
next
  fix k
  assume "k < length ys"
  with assms show "ys ! k = (take p xs @ e # drop p xs) ! k"
    by (auto simp: nth_append nth_Cons' min_def)
qed

lemma resize_seq_ok:
  assumes "sequence_inv s"
  shows "\<exists>s'. resize_seq s n = Inr s' \<and> sequence_inv s' \<and> items s' = items s
           \<and> seq_used s' = seq_used s \<and> current_index s' = current_index s
           \<and> seq_capacity s' = max 1 (max n (seq_used s))"
proof -
  let ?n2 = "max 1 (max n (seq_used s))"
  from assms have ul: "seq_used s \<le> length (seq_data s)"
    by (simp add: sequence_inv_def)
  then have c: "copy_loop (seq_data s) (new_array ?n2) 0 (seq_used s)
        = Inr (map ((!) (seq_data s)) [0..<seq_used s] @ drop (seq_used s) (new_array ?n2))"
    using copy_loop_ok [of "seq_used s" "new_array ?n2" "seq_data s" 0] by simp
  let ?s' = "s\<lparr>seq_data := map ((!) (seq_data s)) [0..<seq_used s] @ drop (seq_used s) (new_array ?n2),
               seq_capacity := ?n2\<rparr>"
  have n2: "(let n1 = (if n < seq_used s then seq_used s else n) in (if n1 \<le> 0 then 1 else n1)) = ?n2"
    by (simp add: Let_def max_def)
  have r: "resize_seq s n = Inr ?s'"
    unfolding resize_seq_def using c n2 by (simp add: Let_def max_def)
  from ul have "items ?s' = items s"
    by (auto simp: items_def intro!: nth_equalityI)
  moreover from assms have "sequence_inv ?s'"
    by (simp add: sequence_inv_def)
  ultimately show ?thesis
    using r by (intro exI [of _ ?s']) simp
qed

lemma grow_seq_ok:
  assumes "sequence_inv s"
  shows "\<exists>s1. (if seq_used s = seq_capacity s
               then resize_seq s (5 * seq_capacity s div 4 + 1) else Inr s) = Inr s1
           \<and> sequence_inv s1 \<and> items s1 = items s \<and> seq_used s1 = seq_used s
           \<and> current_index s1 = current_index s \<and> seq_used s1 < seq_capacity s1"
proof (cases "seq_used s = seq_capacity s")
  case True
  from resize_seq_ok [OF assms, of "5 * seq_capacity s div 4 + 1"] True show ?thesis
    by (auto simp: max_def)
next
  case False
  with assms show ?thesis
    by (simp add: sequence_inv_def)
qed

lemma insert_seq_ok:
  assumes "sequence_inv s"
  defines "p \<equiv> (if current_index s = seq_used s then 0 else current_index s)"
  shows "\<exists>s'. insert_seq s entry = Inr s' \<and> sequence_inv s' \<and> seq_used s' = seq_used s + 1
           \<and> current_index s' = p \<and> items s' = take p (items s) @ Some entry # drop p (items s)"
proof -
  from grow_seq_ok [OF assms(1)] obtain s1 where
    g: "(if seq_used s = seq_capacity s
         then resize_seq s (5 * seq_capacity s div 4 + 1) else Inr s) = Inr s1"
    and s1: "sequence_inv s1" "items s1 = items s" "seq_used s1 = seq_used s"
      "current_index s1 = current_index s" "seq_used s1 < seq_capacity s1"
    by blast
  let ?d = "seq_data s1" and ?u = "seq_used s"
  from s1 have len: "length ?d = seq_capacity s1" and pu: "p \<le> ?u" and ul: "?u < length ?d"
    by (simp_all add: sequence_inv_def p_def)
  from shift_right_ok [of ?u ?d p] ul pu obtain d' where
    sh: "shift_right ?d ?u p = Inr d'" and ld: "length d' = length ?d"
    and nth: "\<forall>k < length ?d. d' ! k = (if p < k \<and> k \<le> ?u then ?d ! (k - 1) else ?d ! k)"
    by blast
  let ?s' = "s1\<lparr>current_index := p, seq_data := d'[p := Some entry], seq_used := ?u + 1\<rparr>"
  from ld pu ul have w: "wr d' p (Some entry) = Inr (d'[p := Some entry])"
    by simp
  have r: "insert_seq s entry = Inr ?s'"
  proof (cases "current_index s1 = seq_used s1")
    case True
    with s1(3,4) have "p = 0"
      by (simp add: p_def)
    with sh w True s1(3) show ?thesis
      unfolding insert_seq_def g by (simp add: Let_def)
  next
    case False
    with s1(3,4) have "p = current_index s1"
      by (simp add: p_def)
    with sh w False s1(3) show ?thesis
      unfolding insert_seq_def g by (simp add: Let_def)
  qed
  have inv: "sequence_inv ?s'"
    using s1 ld len pu by (simp add: sequence_inv_def)
  have it: "items s = take ?u ?d"
    using s1(2) [symmetric] s1(3) ul by (simp add: items_take)
  have it': "items ?s' = take (Suc ?u) (d'[p := Some entry])"
    using ul ld by (simp add: items_take)
  have "items ?s' = take p (items s) @ Some entry # drop p (items s)"
  proof (rule insert_at_eqI)
    show "length (items ?s') = Suc (length (items s))"
      unfolding it it' using ul ld by simp
    show "p \<le> length (items s)"
      unfolding it using pu ul by simp
    fix k assume "k < Suc (length (items s))"
    then have k: "k \<le> ?u"
      unfolding it using ul by simp
    with ul ld nth pu show "items ?s' ! k =
        (if k < p then items s ! k else if k = p then Some entry else items s ! (k - 1))"
      unfolding it it' by (auto simp: nth_list_update)
  qed
  with r inv show ?thesis
    by (intro exI [of _ ?s']) simp
qed


lemma attach_ok:
  assumes "sequence_inv s"
  defines "q \<equiv> (if current_index s = seq_used s then seq_used s else current_index s + 1)"
  shows "\<exists>s'. attach s entry = Inr s' \<and> sequence_inv s' \<and> seq_used s' = seq_used s + 1
           \<and> current_index s' = q \<and> items s' = take q (items s) @ Some entry # drop q (items s)"
proof -
  from grow_seq_ok [OF assms(1)] obtain s1 where
    g: "(if seq_used s = seq_capacity s
         then resize_seq s (5 * seq_capacity s div 4 + 1) else Inr s) = Inr s1"
    and s1: "sequence_inv s1" "items s1 = items s" "seq_used s1 = seq_used s"
      "current_index s1 = current_index s" "seq_used s1 < seq_capacity s1"
    by blast
  let ?d = "seq_data s1" and ?u = "seq_used s" and ?ci = "current_index s"
  from s1 have len: "length ?d = seq_capacity s1" and ul: "?u < length ?d" and cu: "?ci \<le> ?u"
    by (simp_all add: sequence_inv_def)
  from cu have qu: "q \<le> ?u"
    by (simp add: q_def)
  have it: "items s = take ?u ?d"
    using s1(2) [symmetric] s1(3) ul by (simp add: items_take)
  have "\<exists>d'. attach s entry = Inr (s1\<lparr>seq_data := d', current_index := q, seq_used := ?u + 1\<rparr>)
          \<and> length d' = length ?d
          \<and> (\<forall>k \<le> ?u. d' ! k = (if k < q then ?d ! k else if k = q then Some entry
                                  else ?d ! (k - 1)))"
  proof (cases "?ci = ?u")
    case True
    then have "q = ?u"
      by (simp add: q_def)
    with True ul s1(3,4) show ?thesis
      unfolding attach_def g by (intro exI [of _ "?d[?u := Some entry]"]) simp
  next
    case ne: False
    show ?thesis
    proof (cases "?ci = ?u - 1")
      case True
      with ne cu have "q = ?u" "?ci + 1 = ?u"
        by (simp_all add: q_def)
      with True ne ul s1(3,4) show ?thesis
        unfolding attach_def g by (intro exI [of _ "?d[?u := Some entry]"]) simp
    next
      case False
      with ne cu have q: "q = ?ci + 1" "?ci < ?u"
        by (simp_all add: q_def)
      from shift_right_ok [of ?u ?d ?ci] ul cu obtain d' where
        sh: "shift_right ?d ?u ?ci = Inr d'" and ld: "length d' = length ?d"
        and nth: "\<forall>k < length ?d. d' ! k = (if ?ci < k \<and> k \<le> ?u then ?d ! (k - 1) else ?d ! k)"
        by blast
      from ld q ul have w: "wr d' (?ci + 1) (Some entry) = Inr (d'[?ci + 1 := Some entry])"
        by simp
      have "\<forall>k \<le> ?u. (d'[?ci + 1 := Some entry]) ! k =
          (if k < q then ?d ! k else if k = q then Some entry else ?d ! (k - 1))"
        using nth ul ld q by (auto simp: nth_list_update)
      with False ne sh w ld s1(3,4) q show ?thesis
        unfolding attach_def g by (intro exI [of _ "d'[?ci + 1 := Some entry]"]) simp
    qed
  qed
  then obtain d' where
    r: "attach s entry = Inr (s1\<lparr>seq_data := d', current_index := q, seq_used := ?u + 1\<rparr>)"
    and ld: "length d' = length ?d"
    and nth: "\<forall>k \<le> ?u. d' ! k = (if k < q then ?d ! k else if k = q then Some entry
                                  else ?d ! (k - 1))"
    by blast
  let ?s' = "s1\<lparr>seq_data := d', current_index := q, seq_used := ?u + 1\<rparr>"
  have inv: "sequence_inv ?s'"
    using s1 ld len qu by (simp add: sequence_inv_def)
  have it': "items ?s' = take (Suc ?u) d'"
    using ul ld by (simp add: items_take)
  have "items ?s' = take q (items s) @ Some entry # drop q (items s)"
  proof (rule insert_at_eqI)
    show "length (items ?s') = Suc (length (items s))"
      unfolding it it' using ul ld by simp
    show "q \<le> length (items s)"
      unfolding it using qu ul by simp
    fix k assume "k < Suc (length (items s))"
    then have k: "k \<le> ?u"
      unfolding it using ul by simp
    with ul ld nth qu show "items ?s' ! k =
        (if k < q then items s ! k else if k = q then Some entry else items s ! (k - 1))"
      unfolding it it' by auto
  qed
  with r inv show ?thesis
    by (intro exI [of _ ?s']) simp
qed

lemma current_ok:
  "current_index s < seq_used s \<Longrightarrow> seq_used s \<le> length (seq_data s) \<Longrightarrow>
   current s = Inr (items s ! current_index s)"
  by (simp add: current_def is_item_def items_def)

lemma sequence_ctor_ok:
  shows "sequence_inv (sequence_ctor n)" and "items (sequence_ctor n) = []"
    and "seq_used (sequence_ctor n) = 0" and "current_index (sequence_ctor n) = 0"
  by (simp_all add: sequence_ctor_def sequence_inv_def items_def Let_def)


text \<open>
  C7. On a newly constructed sequence, whatever its initial capacity, \<^verbatim>\<open>insert(a)\<close> followed
  by \<^verbatim>\<open>insert(b)\<close> gives the order b, a with current item b, and \<^verbatim>\<open>attach(c)\<close> then gives
  b, c, a with current item c; no call fails. The scenario of the claim is
  a = 10, b = 20, c = 30.
\<close>

theorem insert_insert_attach:
  "\<exists>s1 s2 s3.
     insert_seq (sequence_ctor initial_capacity) a = Inr s1
     \<and> insert_seq s1 b = Inr s2
     \<and> items s2 = [Some b, Some a] \<and> current s2 = Inr (Some b)
     \<and> attach s2 c = Inr s3
     \<and> items s3 = [Some b, Some c, Some a] \<and> current s3 = Inr (Some c)"
proof -
  let ?s0 = "sequence_ctor initial_capacity :: 'a sequence"
  have s0: "sequence_inv ?s0" "seq_used ?s0 = 0" "current_index ?s0 = 0" "items ?s0 = []"
    by (simp_all add: sequence_ctor_ok)
  from insert_seq_ok [OF s0(1), of a] obtain s1 where
    s1: "insert_seq ?s0 a = Inr s1" "sequence_inv s1" "seq_used s1 = 1"
      "current_index s1 = 0" "items s1 = [Some a]"
    by (auto simp: s0(2-4))
  from insert_seq_ok [OF s1(2), of b] obtain s2 where
    s2: "insert_seq s1 b = Inr s2" "sequence_inv s2" "seq_used s2 = 2"
      "current_index s2 = 0" "items s2 = [Some b, Some a]"
    by (auto simp: s1(3-5))
  from attach_ok [OF s2(2), of c] obtain s3 where
    s3: "attach s2 c = Inr s3" "sequence_inv s3" "seq_used s3 = 3"
      "current_index s3 = 1" "items s3 = [Some b, Some c, Some a]"
    by (auto simp: s2(3-5))
  from s2(2-5) have c2: "current s2 = Inr (Some b)"
    by (simp add: current_ok sequence_inv_def)
  from s3(2-5) have c3: "current s3 = Inr (Some c)"
    by (simp add: current_ok sequence_inv_def)
  from s1(1) s2(1,5) c2 s3(1,5) c3 show ?thesis
    by blast
qed

theorem insert_insert_attach_witness:
  "\<exists>s1 s2 s3.
     insert_seq (sequence_ctor 0) (10::int) = Inr s1
     \<and> insert_seq s1 20 = Inr s2
     \<and> items s2 = [Some 20, Some 10] \<and> current s2 = Inr (Some 20)
     \<and> attach s2 30 = Inr s3
     \<and> items s3 = [Some 20, Some 30, Some 10] \<and> current s3 = Inr (Some 30)"
  by (rule insert_insert_attach)


section \<open>sequence: removal\<close>

lemma remove_at_eqI:
  assumes "Suc (length ys) = length xs" "p < length xs"
    and "\<And>k. k < length ys \<Longrightarrow> ys ! k = (if k < p then xs ! k else xs ! Suc k)"
  shows "ys = take p xs @ drop (Suc p) xs"
proof (rule nth_equalityI)
  from assms(1,2) show "length ys = length (take p xs @ drop (Suc p) xs)"
    by simp
next
  fix k
  assume "k < length ys"
  with assms show "ys ! k = (take p xs @ drop (Suc p) xs) ! k"
    by (auto simp: nth_append min_def)
qed

lemma shift_left_ok:
  "n < length d \<Longrightarrow> i \<le> n \<Longrightarrow>
   \<exists>d'. shift_left d i n = Inr d' \<and> length d' = length d
        \<and> (\<forall>k < length d. d' ! k = (if i \<le> k \<and> k < n then d ! (k + 1) else d ! k))"
proof (induction d i n rule: shift_left.induct)
  case (1 d i n)
  show ?case
  proof (cases "i < n")
    case False
    with "1.prems" show ?thesis
      by (subst shift_left.simps) auto
  next
    case True
    let ?d1 = "d[i := d ! (i + 1)]"
    from True "1.prems" have r: "rd d (i + 1) = Inr (d ! (i + 1))"
      and w: "wr d i (d ! (i + 1)) = Inr ?d1"
      by simp_all
    from True "1.prems" have "n < length ?d1" "i + 1 \<le> n"
      by simp_all
    from "1.IH" [OF True r w this] obtain d' where
      d': "shift_left ?d1 (i + 1) n = Inr d'" "length d' = length d"
      and nth: "\<forall>k < length d. d' ! k = (if i + 1 \<le> k \<and> k < n then ?d1 ! (k + 1) else ?d1 ! k)"
      by auto
    have "d' ! k = (if i \<le> k \<and> k < n then d ! (k + 1) else d ! k)" if "k < length d" for k
    proof -
      consider "k < i" | "k = i" | "i < k"
        by arith
      then show ?thesis
        using nth that True "1.prems" by cases (auto simp: nth_list_update)
    qed
    with d' True r w show ?thesis
      by (subst shift_left.simps) simp
  qed
qed

lemma shift_left_full:
  "n = length d \<Longrightarrow> i < n \<Longrightarrow> shift_left d i n = Inl (OutOfBounds n n)"
proof (induction d i n rule: shift_left.induct)
  case (1 d i n)
  show ?case
  proof (cases "i + 1 < n")
    case False
    with "1.prems" have "rd d (i + 1) = Inl (OutOfBounds n n)"
      by (simp add: rd_def)
    with "1.prems" show ?thesis
      by (subst shift_left.simps) simp
  next
    case True
    with "1.prems" have r: "rd d (i + 1) = Inr (d ! (i + 1))"
      and w: "wr d i (d ! (i + 1)) = Inr (d[i := d ! (i + 1)])"
      by simp_all
    from "1.prems" True have "shift_left (d[i := d ! (i + 1)]) (i + 1) n = Inl (OutOfBounds n n)"
      by (intro "1.IH" [OF _ r w]) simp_all
    with "1.prems" r w show ?thesis
      by (subst shift_left.simps) simp
  qed
qed

lemma remove_current_ok:
  assumes "sequence_inv s" and "is_item s"
    and "seq_used s < seq_capacity s \<or> Suc (current_index s) = seq_used s"
  shows "\<exists>s'. remove_current s = Inr s'
           \<and> sequence_inv s'
           \<and> Suc (seq_used s') = seq_used s
           \<and> seq_capacity s' = seq_capacity s
           \<and> current_index s' = current_index s
           \<and> items s' = take (current_index s) (items s) @ drop (Suc (current_index s)) (items s)"
proof -
  let ?d = "seq_data s" and ?u = "seq_used s" and ?ci = "current_index s"
  from assms(1,2) have len: "length ?d = seq_capacity s" and ul: "?u \<le> length ?d"
    and cu: "?ci < ?u"
    by (simp_all add: sequence_inv_def is_item_def split: if_splits)
  have it: "items s = take ?u ?d"
    by (simp add: items_def)
  show ?thesis
  proof (cases "?ci = ?u - 1")
    case True
    let ?s' = "s\<lparr>seq_used := ?u - 1, current_index := ?u - 1\<rparr>"
    from True assms(2) have r: "remove_current s = Inr ?s'"
      by (simp add: remove_current_def)
    from assms(1) have inv: "sequence_inv ?s'"
      by (auto simp: sequence_inv_def)
    from ul cu True have "items ?s' = take ?ci (items s) @ drop (Suc ?ci) (items s)"
      by (simp add: items_def)
    with r inv True cu show ?thesis
      by (intro exI [of _ ?s']) simp
  next
    case False
    with assms(3) cu len have "?u < length ?d"
      by auto
    from shift_left_ok [OF this, of ?ci] cu obtain d' where
      sh: "shift_left ?d ?ci ?u = Inr d'"
      and ld: "length d' = length ?d"
      and nth: "\<forall>k < length ?d. d' ! k = (if ?ci \<le> k \<and> k < ?u then ?d ! (k + 1) else ?d ! k)"
      by auto
    let ?s' = "s\<lparr>seq_data := d', seq_used := ?u - 1\<rparr>"
    from False assms(2) sh have r: "remove_current s = Inr ?s'"
      by (simp add: remove_current_def)
    from assms(1) ld cu have inv: "sequence_inv ?s'"
      by (auto simp: sequence_inv_def)
    have it': "items ?s' = take (?u - 1) d'"
      by (simp add: items_def)
    have "items ?s' = take ?ci (items s) @ drop (Suc ?ci) (items s)"
    proof (rule remove_at_eqI)
      show "Suc (length (items ?s')) = length (items s)"
        unfolding it it' using cu ul ld by simp
      show "?ci < length (items s)"
        unfolding it using cu ul by simp
      fix k assume "k < length (items ?s')"
      then have "k < ?u - 1"
        unfolding it' by simp
      with ul ld nth cu show "items ?s' ! k = (if k < ?ci then items s ! k else items s ! Suc k)"
        unfolding it it' by auto
    qed
    with r inv cu show ?thesis
      by (intro exI [of _ ?s']) simp
  qed
qed

text \<open>
  The full sequence 5, 6, 7 with current item 6 that the next theorems use is the one a
  caller builds with \<^verbatim>\<open>sequence s(3); s.attach(5); s.attach(6); s.attach(7); s.start();
  s.advance();\<close>.
\<close>

lemma full_567_reachable:
  "\<exists>s1 s2 s3. attach (sequence_ctor 3) (5::int) = Inr s1 \<and> attach s1 6 = Inr s2
      \<and> attach s2 7 = Inr s3
      \<and> advance (start s3)
          = \<lparr>seq_data = [Some 5, Some 6, Some 7], seq_used = 3, current_index = 1,
              seq_capacity = 3\<rparr>"
  by (simp add: attach_def sequence_ctor_def new_array_def advance_def start_def is_item_def
      wr_def Let_def numeral_3_eq_3)

text \<open>
  C8. \<^verbatim>\<open>remove_current\<close> does not do what the claim says on every sequence with a current
  item. The scenario of the claim, the sequence 5, 6, 7 with current item 6, in a full
  array of capacity 3: the last round of the loop reads \<^verbatim>\<open>data[3]\<close>, outside the array, and
  the call stops there instead of leaving 5, 7 with current item 7. (Where the array has a
  free slot, or the current item is the last, no access leaves the array and the call
  does what the claim says: \<open>remove_current_ok\<close>.)
\<close>

theorem remove_current_567_full:
  "items \<lparr>seq_data = [Some (5::int), Some 6, Some 7], seq_used = 3, current_index = 1,
       seq_capacity = 3\<rparr> = [Some 5, Some 6, Some 7]
   \<and> current \<lparr>seq_data = [Some (5::int), Some 6, Some 7], seq_used = 3, current_index = 1,
       seq_capacity = 3\<rparr> = Inr (Some 6)
   \<and> remove_current \<lparr>seq_data = [Some (5::int), Some 6, Some 7], seq_used = 3,
       current_index = 1, seq_capacity = 3\<rparr> = Inl (OutOfBounds 3 3)"
  by (simp add: remove_current_def is_item_def shift_left.simps rd_def wr_def items_def
      current_def)

text \<open>
  C9. Not every index \<^verbatim>\<open>remove_current\<close> touches is below the capacity. The loop runs
  while \<^verbatim>\<open>i < used\<close> and reads \<^verbatim>\<open>data[i + 1]\<close>, so its last round reads \<^verbatim>\<open>data[used]\<close>. On
  every full sequence (\<^verbatim>\<open>used == capacity\<close>) whose current item is not the last, that is a
  read at index \<^verbatim>\<open>capacity\<close> of an array of \<^verbatim>\<open>capacity\<close> elements, one past its end.
\<close>

theorem remove_current_full_reads_past_end:
  assumes "sequence_inv s" and "is_item s" and "seq_used s = seq_capacity s"
    and "Suc (current_index s) \<noteq> seq_used s"
  shows "remove_current s = Inl (OutOfBounds (seq_capacity s) (seq_capacity s))"
proof -
  from assms(1,2) have len: "length (seq_data s) = seq_capacity s"
    and cu: "current_index s < seq_used s"
    by (simp_all add: sequence_inv_def is_item_def split: if_splits)
  from assms(3) len cu have
    "shift_left (seq_data s) (current_index s) (seq_used s)
       = Inl (OutOfBounds (seq_used s) (seq_used s))"
    by (intro shift_left_full) simp_all
  moreover from assms(4) cu have "current_index s \<noteq> seq_used s - 1"
    by auto
  ultimately show ?thesis
    using assms(2,3) by (simp add: remove_current_def)
qed

theorem remove_current_full_reads_past_end_witness:
  "sequence_inv \<lparr>seq_data = [Some (5::int), Some 6, Some 7], seq_used = 3, current_index = 1,
       seq_capacity = 3\<rparr>
   \<and> is_item \<lparr>seq_data = [Some (5::int), Some 6, Some 7], seq_used = 3, current_index = 1,
       seq_capacity = 3\<rparr>
   \<and> remove_current \<lparr>seq_data = [Some (5::int), Some 6, Some 7], seq_used = 3,
       current_index = 1, seq_capacity = 3\<rparr> = Inl (OutOfBounds 3 3)"
proof -
  let ?s = "\<lparr>seq_data = [Some (5::int), Some 6, Some 7], seq_used = 3, current_index = 1,
      seq_capacity = 3\<rparr>"
  have inv: "sequence_inv ?s"
    by (simp add: sequence_inv_def)
  have item: "is_item ?s"
    by (simp add: is_item_def)
  have full: "seq_used ?s = seq_capacity ?s" and nl: "Suc (current_index ?s) \<noteq> seq_used ?s"
    by simp_all
  from remove_current_full_reads_past_end [OF inv item full nl] inv item show ?thesis
    by simp
qed

section \<open>sequence: the cursor\<close>

text \<open>
  C10. \<^verbatim>\<open>advance\<close> has no \<^verbatim>\<open>assert\<close> and no other way to stop: it is a total function from
  sequences to sequences. Called on a sequence with no current item it takes the branch
  \<^verbatim>\<open>current_index = used\<close>, which stores the value \<^verbatim>\<open>current_index\<close> already has: the
  sequence it leaves is the one it was given, with the same array, \<^verbatim>\<open>used\<close> and
  \<^verbatim>\<open>capacity\<close>, and still with no current item.
\<close>

theorem advance_without_current_item:
  "\<not> is_item s \<Longrightarrow>
   advance s = s \<and> current_index (advance s) = seq_used (advance s) \<and> \<not> is_item (advance s)"
  by (simp add: advance_def is_item_def split: if_splits)

theorem advance_without_current_item_witness:
  "\<not> is_item \<lparr>seq_data = [Some (5::int), Some 6, None], seq_used = 2, current_index = 2,
       seq_capacity = 3\<rparr>
   \<and> advance \<lparr>seq_data = [Some (5::int), Some 6, None], seq_used = 2, current_index = 2,
       seq_capacity = 3\<rparr>
     = \<lparr>seq_data = [Some 5, Some 6, None], seq_used = 2, current_index = 2, seq_capacity = 3\<rparr>"
proof -
  have h: "\<not> is_item \<lparr>seq_data = [Some (5::int), Some 6, None], seq_used = 2,
      current_index = 2, seq_capacity = 3\<rparr>"
    by (simp add: is_item_def)
  from advance_without_current_item [OF h] h show ?thesis
    by simp
qed

end
